theory Spec2Isabelle
  imports Main "HOL-Library.Multiset" "HOL-Library.Product_Lexorder"
begin

section \<open>The N-Queens CSP solver of \<open>solver.py\<close>\<close>

subsection \<open>Data model\<close>

text \<open>
  The exceptions the solver can raise: a missing dictionary key, \<open>min\<close> of an empty
  sequence or an unparsable line, and the read of a local variable that was never bound.
\<close>

datatype error = KeyError | ValueError | UnboundLocalError

text \<open>
  \<open>self.domains\<close> is a dictionary whose keys are the columns \<open>0 .. n-1\<close> (line 39; no key
  is ever added or deleted afterwards), so it is kept as the list of its values in key
  order: \<open>len(self.domains)\<close> is the length of that list, \<open>self.domains[v]\<close> is its
  \<open>v\<close>-th element and a variable that is not below the length is a missing key.
  An assignment is a Python dictionary, kept in insertion order as a list of items.
\<close>

type_synonym domains = "int list list"
type_synonym constraints = "(nat \<times> nat) list"
type_synonym assignment = "(nat \<times> int) list"

record csp =
  domains :: domains
  constraints :: constraints

text \<open>Dictionary operations on assignments: \<open>k in d\<close>, \<open>d[k] = v\<close> and \<open>del d[k]\<close>.\<close>

definition dict_keys :: "assignment \<Rightarrow> nat list" where
  "dict_keys a = map fst a"

definition dict_mem :: "nat \<Rightarrow> assignment \<Rightarrow> bool" where
  "dict_mem k a = (k \<in> set (dict_keys a))"

fun dict_set :: "assignment \<Rightarrow> nat \<Rightarrow> int \<Rightarrow> assignment" where
  "dict_set [] k v = [(k, v)]"
| "dict_set ((k', v') # rest) k v =
     (if k' = k then (k, v) # rest else (k', v') # dict_set rest k v)"

fun dict_del :: "assignment \<Rightarrow> nat \<Rightarrow> error + assignment" where
  "dict_del [] k = Inl KeyError"
| "dict_del ((k', v') # rest) k =
     (if k' = k then Inr rest
      else case dict_del rest k of Inl e \<Rightarrow> Inl e | Inr rest' \<Rightarrow> Inr ((k', v') # rest'))"

fun dict_get :: "assignment \<Rightarrow> nat \<Rightarrow> error + int" where
  "dict_get [] k = Inl KeyError"
| "dict_get ((k', v') # rest) k = (if k' = k then Inr v' else dict_get rest k)"

subsection \<open>\<open>input_reader\<close>\<close>

text \<open>
  The two ways \<open>input_reader\<close> obtains the board: with \<open>"pass"\<close> the user types the size
  and \<open>random.randint\<close> is called once per column (the draws are the second argument,
  indexed by call); otherwise the lines of a file are read, comment lines are skipped and
  every other line is converted with \<open>int\<close>, which raises \<open>ValueError\<close> on a line that is
  not a number.
\<close>

datatype line = Comment | Entry int | Malformed

datatype input = Pass int "nat \<Rightarrow> int" | File "line list"

fun parse_lines :: "line list \<Rightarrow> error + int list" where
  "parse_lines [] = Inr []"
| "parse_lines (Comment # ls) = parse_lines ls"
| "parse_lines (Malformed # ls) = Inl ValueError"
| "parse_lines (Entry k # ls) =
     (case parse_lines ls of Inl e \<Rightarrow> Inl e | Inr ks \<Rightarrow> Inr (k # ks))"

text \<open>Lines 39 and 41: the domains and the constraints built from \<open>n\<close>.\<close>

definition initial_store :: "nat \<Rightarrow> csp" where
  "initial_store n =
     \<lparr> domains = map (\<lambda>i. map int [0..<n]) [0..<n],
       constraints = [(i, j). i \<leftarrow> [0..<n], j \<leftarrow> [0..<n], i \<noteq> j] \<rparr>"

fun input_reader :: "input \<Rightarrow> error + (csp \<times> int list)" where
  "input_reader (Pass n draws) = Inr (initial_store (nat n), map draws [0..<nat n])"
| "input_reader (File ls) =
     (case parse_lines ls of
        Inl e \<Rightarrow> Inl e
      | Inr qcolumns \<Rightarrow> Inr (initial_store (length qcolumns), qcolumns))"

subsection \<open>\<open>check_consistency\<close>\<close>

fun check_consistency :: "nat \<Rightarrow> int \<Rightarrow> assignment \<Rightarrow> bool" where
  "check_consistency current_var current_val [] = True"
| "check_consistency current_var current_val ((assigned_var, assigned_val) # rest) =
     (if assigned_val = current_val
         \<or> \<bar>assigned_val - current_val\<bar> = \<bar>int assigned_var - int current_var\<bar>
      then False
      else check_consistency current_var current_val rest)"

subsection \<open>\<open>select_unassigned\<close>\<close>

text \<open>
  Python's \<open>min(xs, key=f)\<close>: \<open>ValueError\<close> on an empty sequence, otherwise the first
  element whose key is smallest.
\<close>

fun py_min :: "('a \<Rightarrow> 'k::linorder) \<Rightarrow> 'a list \<Rightarrow> error + 'a" where
  "py_min key [] = Inl ValueError"
| "py_min key (x # xs) = Inr (fold (\<lambda>y best. if key y < key best then y else best) xs x)"

definition unassigned_variables :: "domains \<Rightarrow> assignment \<Rightarrow> nat list" where
  "unassigned_variables ds a = filter (\<lambda>variable. \<not> dict_mem variable a) [0..<length ds]"

definition select_unassigned :: "domains \<Rightarrow> assignment \<Rightarrow> error + nat" where
  "select_unassigned ds a =
     py_min (\<lambda>variable. (length (ds ! variable), - int variable)) (unassigned_variables ds a)"

subsection \<open>\<open>prioritize_domain_values\<close>\<close>

text \<open>
  \<open>calculate_lcv\<close>: the two nested loops with their counter. \<open>{**current_assignment,
  selected_variable: value}\<close> is a copy of the assignment with the key set.
\<close>

definition calculate_lcv :: "domains \<Rightarrow> nat \<Rightarrow> assignment \<Rightarrow> int \<Rightarrow> nat" where
  "calculate_lcv ds selected_variable current_assignment val =
     fold (\<lambda>adjacent_variable compatibility_count.
             if adjacent_variable \<noteq> selected_variable
                \<and> \<not> dict_mem adjacent_variable current_assignment
             then fold (\<lambda>possible_value c.
                          if check_consistency adjacent_variable possible_value
                               (dict_set current_assignment selected_variable val)
                          then c + 1 else c)
                       (ds ! adjacent_variable) compatibility_count
             else compatibility_count)
          [0..<length ds] 0"

text \<open>
  Python's \<open>sorted(xs, key=f, reverse=True)\<close> for an integer key: the sort is stable also
  when reversed, which is a stable ascending sort on the negated key.
\<close>

definition py_sorted_reverse :: "('a \<Rightarrow> nat) \<Rightarrow> 'a list \<Rightarrow> 'a list" where
  "py_sorted_reverse key xs = sort_key (\<lambda>x. - int (key x)) xs"

definition prioritize_domain_values :: "domains \<Rightarrow> nat \<Rightarrow> assignment \<Rightarrow> error + int list" where
  "prioritize_domain_values ds selected_variable current_assignment =
     (if selected_variable < length ds
      then Inr (py_sorted_reverse (calculate_lcv ds selected_variable current_assignment)
                  (ds ! selected_variable))
      else Inl KeyError)"

subsection \<open>\<open>revise_domains\<close>\<close>

text \<open>
  One round of the loop over the copy of \<open>variable_x\<close>'s domain. The test reads
  \<open>variable_y\<close>'s domain in the current store, and the generator variable of the outer
  \<open>all\<close> is shadowed by the one of the inner \<open>any\<close>, so the outer loop only repeats the
  same test. \<open>list.remove\<close> deletes the first occurrence.
\<close>

definition revise_step :: "nat \<Rightarrow> nat \<Rightarrow> int \<Rightarrow> bool \<times> domains \<Rightarrow> bool \<times> domains" where
  "revise_step variable_x variable_y value_x st =
     (case st of (domain_updated, ds) \<Rightarrow>
        if list_all (\<lambda>_. \<not> list_ex (\<lambda>value_y. value_x = value_y) (ds ! variable_y))
             (ds ! variable_y)
        then (True, ds[variable_x := remove1 value_x (ds ! variable_x)])
        else (domain_updated, ds))"

text \<open>
  \<open>self.domains[variable_x]\<close> is read first; \<open>self.domains[variable_y]\<close> is read only
  inside the loop, so a missing \<open>variable_y\<close> raises only when the loop runs at all.
\<close>

definition revise_domains :: "domains \<Rightarrow> nat \<Rightarrow> nat \<Rightarrow> error + (bool \<times> domains)" where
  "revise_domains ds variable_x variable_y =
     (if \<not> variable_x < length ds then Inl KeyError
      else if ds ! variable_x = [] then Inr (False, ds)
      else if \<not> variable_y < length ds then Inl KeyError
      else Inr (fold (revise_step variable_x variable_y) (ds ! variable_x) (False, ds)))"

subsection \<open>The AC-3 loop\<close>

text \<open>
  The loop of \<open>apply_arcconsistency_algorithm\<close> (lines 110 to 121) runs while the queue is
  not empty; a revision that changes a domain removes a value, so the total number of
  values in the store bounds the number of times the queue can grow.
\<close>

definition store_size :: "domains \<Rightarrow> nat" where
  "store_size ds = sum_list (map length ds)"

text \<open>
  Lines 119 to 121: one arc is appended for every constraint whose first variable is not
  \<open>next_var\<close>.
\<close>

definition requeue :: "constraints \<Rightarrow> nat \<Rightarrow> nat \<Rightarrow> (nat \<times> nat) list" where
  "requeue cs current_var next_var =
     map (\<lambda>(adjacent_var, _). (adjacent_var, current_var))
       (filter (\<lambda>(adjacent_var, _). adjacent_var \<noteq> next_var) cs)"

lemma revise_test: "list_all (\<lambda>_. \<not> list_ex (\<lambda>value_y. v = value_y) ys) ys \<longleftrightarrow> v \<notin> set ys"
  by (cases ys) (auto simp: list_all_iff list_ex_iff)

lemma revise_step_simp:
  "revise_step x y v (u, ds) =
     (if v \<notin> set (ds ! y) then (True, ds[x := remove1 v (ds ! x)]) else (u, ds))"
  by (simp add: revise_step_def revise_test)

lemma remove1_append_notin: "v \<notin> set pre \<Longrightarrow> remove1 v (pre @ v # vs) = pre @ vs"
  by (induction pre) auto

lemma fold_revise_step_other:
  "x < length ds \<Longrightarrow> x \<noteq> y \<Longrightarrow> ds ! x = pre @ vs \<Longrightarrow> set pre \<subseteq> set (ds ! y) \<Longrightarrow>
   fold (revise_step x y) vs (u, ds) =
     (u \<or> (\<exists>v\<in>set vs. v \<notin> set (ds ! y)), ds[x := pre @ filter (\<lambda>v. v \<in> set (ds ! y)) vs])"
proof (induction vs arbitrary: u ds pre)
  case Nil
  then have "ds[x := pre] = ds" using list_update_id[of ds x] by simp
  then show ?case by simp
next
  case (Cons v vs)
  show ?case
  proof (cases "v \<in> set (ds ! y)")
    case True
    have "fold (revise_step x y) vs (u, ds) =
      (u \<or> (\<exists>v\<in>set vs. v \<notin> set (ds ! y)), ds[x := (pre @ [v]) @ filter (\<lambda>v. v \<in> set (ds ! y)) vs])"
      using Cons.prems True by (intro Cons.IH) auto
    with True show ?thesis by (simp add: revise_step_simp)
  next
    case False
    let ?ds = "ds[x := remove1 v (ds ! x)]"
    have nin: "v \<notin> set pre" using False Cons.prems(4) by auto
    have dx: "?ds ! x = pre @ vs"
      using Cons.prems(1,3) nin by (simp add: remove1_append_notin)
    have dy: "?ds ! y = ds ! y" using Cons.prems(2) by simp
    have "fold (revise_step x y) vs (True, ?ds) =
      (True \<or> (\<exists>v\<in>set vs. v \<notin> set (?ds ! y)), ?ds[x := pre @ filter (\<lambda>v. v \<in> set (?ds ! y)) vs])"
      using Cons.prems dx dy by (intro Cons.IH) auto
    with False dy show ?thesis by (simp add: revise_step_simp)
  qed
qed

lemma fold_revise_step_same:
  "set vs \<subseteq> set (ds ! x) \<Longrightarrow> fold (revise_step x x) vs (u, ds) = (u, ds)"
  by (induction vs) (auto simp: revise_step_simp)

lemma revise_domains_eq:
  assumes "x < length ds" "ds ! x = [] \<or> y < length ds"
  shows "revise_domains ds x y =
     Inr (\<exists>v\<in>set (ds ! x). v \<notin> set (ds ! y), ds[x := filter (\<lambda>v. v \<in> set (ds ! y)) (ds ! x)])"
proof (cases "ds ! x = []")
  case True
  with assms have "ds[x := []] = ds" by (metis list_update_id)
  with True assms show ?thesis by (simp add: revise_domains_def)
next
  case False
  with assms have y: "y < length ds" by simp
  show ?thesis
  proof (cases "x = y")
    case True
    then show ?thesis using assms False
      by (simp add: revise_domains_def fold_revise_step_same)
  next
    case ne: False
    have "fold (revise_step x y) (ds ! x) (False, ds) =
      (False \<or> (\<exists>v\<in>set (ds ! x). v \<notin> set (ds ! y)), ds[x := [] @ filter (\<lambda>v. v \<in> set (ds ! y)) (ds ! x)])"
      using assms(1) ne by (intro fold_revise_step_other) auto
    then show ?thesis using assms(1) y False by (simp add: revise_domains_def)
  qed
qed

lemma store_size_update:
  "x < length ds \<Longrightarrow> store_size (ds[x := d]) + length (ds ! x) = store_size ds + length d"
  unfolding store_size_def
proof (induction ds arbitrary: x)
  case Nil then show ?case by simp
next
  case (Cons a ds)
  then show ?case by (cases x) auto
qed

lemma length_filter_less_ex: "\<exists>v\<in>set xs. \<not> P v \<Longrightarrow> length (filter P xs) < length xs"
  by (auto intro: length_filter_less)

lemma revise_domains_False:
  assumes "revise_domains ds x y = Inr (False, ds')"
  shows "ds' = ds"
proof -
  from assms have x: "x < length ds" and y: "ds ! x = [] \<or> y < length ds"
    by (auto simp: revise_domains_def split: if_splits)
  from assms revise_domains_eq[OF x y]
  have all: "\<forall>v\<in>set (ds ! x). v \<in> set (ds ! y)"
    and ds': "ds' = ds[x := filter (\<lambda>v. v \<in> set (ds ! y)) (ds ! x)]" by auto
  from all have "filter (\<lambda>v. v \<in> set (ds ! y)) (ds ! x) = ds ! x" by (simp add: filter_id_conv)
  with ds' show ?thesis by simp
qed

lemma revise_domains_True:
  assumes "revise_domains ds x y = Inr (True, ds')"
  shows "store_size ds' < store_size ds"
proof -
  from assms have x: "x < length ds" and y: "ds ! x = [] \<or> y < length ds"
    by (auto simp: revise_domains_def split: if_splits)
  from assms revise_domains_eq[OF x y]
  have ex: "\<exists>v\<in>set (ds ! x). v \<notin> set (ds ! y)"
    and ds': "ds' = ds[x := filter (\<lambda>v. v \<in> set (ds ! y)) (ds ! x)]" by auto
  from ex have "length (filter (\<lambda>v. v \<in> set (ds ! y)) (ds ! x)) < length (ds ! x)"
    by (intro length_filter_less_ex) auto
  with store_size_update[OF x, of "filter (\<lambda>v. v \<in> set (ds ! y)) (ds ! x)"] ds'
  show ?thesis by simp
qed

function ac3_loop :: "constraints \<Rightarrow> (nat \<times> nat) list \<Rightarrow> domains \<Rightarrow> error + (bool \<times> domains)" where
  "ac3_loop cs [] ds = Inr (True, ds)"
| "ac3_loop cs ((current_var, next_var) # constraints_queue) ds =
     (case revise_domains ds current_var next_var of
        Inl e \<Rightarrow> Inl e
      | Inr (revised, ds') \<Rightarrow>
          if revised
          then if ds' ! current_var = [] then Inr (False, ds')
               else ac3_loop cs (constraints_queue @ requeue cs current_var next_var) ds'
          else ac3_loop cs constraints_queue ds')"
  by pat_completeness auto
termination
proof (relation "measures [\<lambda>(cs, q, ds). store_size ds, \<lambda>(cs, q, ds). length q]")
  show "wf (measures [\<lambda>(cs, q, ds). store_size ds, \<lambda>(cs, q, ds). length q])" by simp
next
  fix cs :: constraints and current_var next_var constraints_queue ds x2 x1 ds'
  assume "revise_domains ds current_var next_var = Inr x2" "(x1, ds') = x2" "x1"
  then show "((cs, constraints_queue @ requeue cs current_var next_var, ds'),
              cs, (current_var, next_var) # constraints_queue, ds)
             \<in> measures [\<lambda>(cs, q, ds). store_size ds, \<lambda>(cs, q, ds). length q]"
    using revise_domains_True[of ds current_var next_var ds'] by auto
next
  fix cs :: constraints and current_var next_var constraints_queue ds x2 x1 ds'
  assume "revise_domains ds current_var next_var = Inr x2" "(x1, ds') = x2" "\<not> x1"
  then show "((cs, constraints_queue, ds'), cs, (current_var, next_var) # constraints_queue, ds)
             \<in> measures [\<lambda>(cs, q, ds). store_size ds, \<lambda>(cs, q, ds). length q]"
    using revise_domains_False[of ds current_var next_var ds'] by auto
qed

definition apply_arcconsistency_algorithm :: "csp \<Rightarrow> error + (bool \<times> domains)" where
  "apply_arcconsistency_algorithm st = ac3_loop (constraints st) (constraints st) (domains st)"

subsection \<open>Backtracking search\<close>

lemma fold_min_props:
  fixes key :: "'a \<Rightarrow> 'k::linorder"
  shows "fold (\<lambda>y best. if key y < key best then y else best) xs x \<in> set (x # xs) \<and>
         (\<forall>y\<in>set (x # xs). key (fold (\<lambda>y best. if key y < key best then y else best) xs x) \<le> key y)"
proof (induction xs arbitrary: x)
  case Nil
  then show ?case by simp
next
  case (Cons z zs)
  let ?f = "\<lambda>y best. if key y < key best then y else best"
  show ?case
  proof (cases "key z < key x")
    case True
    then have e: "fold ?f (z # zs) x = fold ?f zs z" by simp
    from Cons.IH[of z] have m: "fold ?f zs z \<in> set (z # zs)"
      and le: "\<forall>y\<in>set (z # zs). key (fold ?f zs z) \<le> key y" by blast+
    from le have "key (fold ?f zs z) \<le> key z" by simp
    with True have "key (fold ?f zs z) \<le> key x" by simp
    with m le show ?thesis unfolding e by simp
  next
    case False
    then have e: "fold ?f (z # zs) x = fold ?f zs x" by simp
    from Cons.IH[of x] have m: "fold ?f zs x \<in> set (x # zs)"
      and le: "\<forall>y\<in>set (x # zs). key (fold ?f zs x) \<le> key y" by blast+
    from le have "key (fold ?f zs x) \<le> key x" by simp
    with False have "key (fold ?f zs x) \<le> key z" by simp
    with m le show ?thesis unfolding e by auto
  qed
qed

lemma py_min_props:
  fixes key :: "'a \<Rightarrow> 'k::linorder"
  assumes "py_min key xs = Inr m"
  shows "m \<in> set xs" and "\<forall>y\<in>set xs. key m \<le> key y"
proof -
  from assms obtain x xs' where xs: "xs = x # xs'" by (cases xs) auto
  with assms have m: "m = fold (\<lambda>y best. if key y < key best then y else best) xs' x" by simp
  from fold_min_props[of key xs' x] m xs show "m \<in> set xs" by simp
  from fold_min_props[of key xs' x] m xs show "\<forall>y\<in>set xs. key m \<le> key y" by simp
qed

lemma py_min_total: "xs \<noteq> [] \<Longrightarrow> \<exists>m. py_min key xs = Inr m"
  by (cases xs) auto

lemma set_unassigned_variables:
  "set (unassigned_variables ds a) = {v. v < length ds \<and> \<not> dict_mem v a}"
  by (auto simp: unassigned_variables_def)

lemma select_unassigned_range:
  "select_unassigned ds a = Inr v \<Longrightarrow> v < length ds \<and> \<not> dict_mem v a"
  using py_min_props(1)[of _ "unassigned_variables ds a" v]
  by (auto simp: select_unassigned_def set_unassigned_variables)

lemma dict_set_keys_list:
  "dict_keys (dict_set a k v) = (if dict_mem k a then dict_keys a else dict_keys a @ [k])"
  by (induction a) (force simp: dict_keys_def dict_mem_def)+

lemma dict_set_keys: "set (dict_keys (dict_set a k v)) = insert k (set (dict_keys a))"
  by (auto simp: dict_set_keys_list dict_mem_def)

lemma dict_set_fresh: "\<not> dict_mem k a \<Longrightarrow> dict_set a k v = a @ [(k, v)]"
  by (induction a) (auto simp: dict_mem_def dict_keys_def)

lemma dict_del_last: "\<not> dict_mem k a \<Longrightarrow> dict_del (a @ [(k, v)]) k = Inr a"
  by (induction a) (auto simp: dict_mem_def dict_keys_def)

lemma dict_del_keys: "dict_del a k = Inr b \<Longrightarrow> insert k (set (dict_keys b)) = set (dict_keys a)"
proof (induction a arbitrary: b)
  case Nil
  then show ?case by simp
next
  case (Cons p rest)
  obtain k' v' where p: "p = (k', v')" by (cases p)
  show ?case
  proof (cases "k' = k")
    case True
    with Cons.prems p show ?thesis by (simp add: dict_keys_def)
  next
    case False
    with Cons.prems p obtain rest' where r: "dict_del rest k = Inr rest'" and b: "b = (k', v') # rest'"
      by (auto split: sum.splits)
    from Cons.IH[OF r] have "insert k (set (dict_keys rest')) = set (dict_keys rest)" .
    then have "insert k (insert k' (set (dict_keys rest'))) = insert k' (set (dict_keys rest))"
      by blast
    with p b show ?thesis by (simp add: dict_keys_def)
  qed
qed

text \<open>The number of columns of the store that are not among the given keys.\<close>

definition remaining :: "domains \<Rightarrow> nat set \<Rightarrow> nat" where
  "remaining ds ks = card ({0..<length ds} - ks)"

lemma remaining_insert:
  "v < length ds \<Longrightarrow> v \<notin> ks \<Longrightarrow> remaining ds (insert v ks) < remaining ds ks"
proof -
  assume v: "v < length ds" "v \<notin> ks"
  have e: "{0..<length ds} - insert v ks = ({0..<length ds} - ks) - {v}" by blast
  from v have "v \<in> {0..<length ds} - ks" by simp
  then have "card (({0..<length ds} - ks) - {v}) < card ({0..<length ds} - ks)"
    by (intro card_Diff1_less) simp_all
  then show ?thesis by (simp only: remaining_def e)
qed

text \<open>
  \<open>attempt_solution\<close> mutates the dictionary it is given and returns either that dictionary
  or \<open>None\<close>: the model returns the value and the state of the dictionary on return.
  \<open>try_values\<close> is the loop over \<open>viable_values\<close> (lines 137 to 148); the \<open>del\<close> acts on the
  dictionary as the recursive call left it.
\<close>

function attempt_solution :: "domains \<Rightarrow> assignment \<Rightarrow> error + (assignment option \<times> assignment)"
  and try_values :: "domains \<Rightarrow> nat \<Rightarrow> int list \<Rightarrow> assignment \<Rightarrow> error + (assignment option \<times> assignment)"
where
  "attempt_solution ds current_assignment =
     (if length current_assignment = length ds then Inr (Some current_assignment, current_assignment)
      else case select_unassigned ds current_assignment of
             Inl e \<Rightarrow> Inl e
           | Inr next_variable \<Rightarrow>
               (case prioritize_domain_values ds next_variable current_assignment of
                  Inl e \<Rightarrow> Inl e
                | Inr viable_values \<Rightarrow> try_values ds next_variable viable_values current_assignment))"
| "try_values ds next_variable [] current_assignment = Inr (None, current_assignment)"
| "try_values ds next_variable (possible_value # viable_values) current_assignment =
     (if check_consistency next_variable possible_value current_assignment
      then case attempt_solution ds (dict_set current_assignment next_variable possible_value) of
             Inl e \<Rightarrow> Inl e
           | Inr (Some potential_solution, a') \<Rightarrow> Inr (Some potential_solution, a')
           | Inr (None, a') \<Rightarrow>
               (case dict_del a' next_variable of
                  Inl e \<Rightarrow> Inl e
                | Inr a'' \<Rightarrow> try_values ds next_variable viable_values a'')
      else try_values ds next_variable viable_values current_assignment)"
  by pat_completeness auto

lemma attempt_solution_restores_partial:
  "attempt_solution_try_values_dom (Inl (ds, a)) \<Longrightarrow>
     (\<forall>a'. attempt_solution ds a = Inr (None, a') \<longrightarrow> a' = a)"
  "attempt_solution_try_values_dom (Inr (ds, v, xs, a)) \<Longrightarrow>
     (\<not> dict_mem v a \<longrightarrow> (\<forall>a'. try_values ds v xs a = Inr (None, a') \<longrightarrow> a' = a))"
proof (induction ds a and ds v xs a rule: attempt_solution_try_values.pinduct)
  case (1 ds a)
  show ?case
  proof (intro allI impI)
    fix a' assume r: "attempt_solution ds a = Inr (None, a')"
    from r 1(1) have ne: "length a \<noteq> length ds"
      by (auto simp: attempt_solution.psimps split: if_splits)
    from r 1(1) ne obtain v vals where sel: "select_unassigned ds a = Inr v"
      and pri: "prioritize_domain_values ds v a = Inr vals"
      and tr: "try_values ds v vals a = Inr (None, a')"
      by (auto simp: attempt_solution.psimps split: sum.splits)
    from select_unassigned_range[OF sel] have "\<not> dict_mem v a" by simp
    with 1(2)[OF ne sel pri] tr show "a' = a" by simp
  qed
next
  case (2 ds v a)
  then show ?case by (simp add: try_values.psimps)
next
  case (3 ds v x xs a)
  show ?case
  proof (intro allI impI)
    fix a' assume fresh: "\<not> dict_mem v a"
      and r: "try_values ds v (x # xs) a = Inr (None, a')"
    show "a' = a"
    proof (cases "check_consistency v x a")
      case False
      with r 3(1) have "try_values ds v xs a = Inr (None, a')"
        by (simp add: try_values.psimps)
      with 3(4)[OF False] fresh show ?thesis by simp
    next
      case True
      from r 3(1) True obtain y b where at: "attempt_solution ds (dict_set a v x) = Inr (None, y)"
        and del: "dict_del y v = Inr b" and tr: "try_values ds v xs b = Inr (None, a')"
        by (auto simp: try_values.psimps split: sum.splits option.splits prod.splits)
      from 3(2)[OF True] at have y: "y = dict_set a v x" by simp
      with del fresh have b: "b = a" by (simp add: dict_set_fresh dict_del_last)
      from 3(3)[OF True at refl refl del] tr fresh b show ?thesis by simp
    qed
  qed
qed

lemma attempt_solution_try_values_total: "All attempt_solution_try_values_dom"
proof (relation "measures
    [\<lambda>c. case c of Inl (ds, a) \<Rightarrow> 2 * remaining ds (set (dict_keys a))
                 | Inr (ds, v, xs, a) \<Rightarrow> 2 * remaining ds (insert v (set (dict_keys a))) + 1,
     \<lambda>c. case c of Inl (ds, a) \<Rightarrow> 0 | Inr (ds, v, xs, a) \<Rightarrow> length xs]", goal_cases)
  case 1
  show ?case by simp
next
  case (2 ds a v vals)
  from select_unassigned_range[OF 2(2)]
  have "remaining ds (insert v (set (dict_keys a))) < remaining ds (set (dict_keys a))"
    by (intro remaining_insert) (auto simp: dict_mem_def)
  then show ?case by simp
next
  case (3 ds v x xs a)
  show ?case by (simp add: dict_set_keys)
next
  case (4 ds v x xs a b r y ba)
  from 4 have "attempt_solution ds (dict_set a v x) = Inr (None, y)" by auto
  with attempt_solution_restores_partial(1)[OF 4(6)] have "y = dict_set a v x" by simp
  with dict_del_keys[OF 4(5)] have "insert v (set (dict_keys ba)) = insert v (set (dict_keys a))"
    by (simp add: dict_set_keys)
  then show ?case by simp
next
  case (5 ds v x xs a)
  show ?case by simp
qed

termination attempt_solution
  using attempt_solution_try_values_total by blast

lemma attempt_solution_restores_state:
  "attempt_solution ds a = Inr (None, a') \<Longrightarrow> a' = a"
  using attempt_solution_restores_partial(1)[of ds a] attempt_solution_try_values_total by simp

subsection \<open>\<open>resolve_nqueens\<close>\<close>

text \<open>
  The local variable \<open>solution_assignment\<close> of \<open>resolve_nqueens\<close> is assigned only inside
  the branch taken when AC-3 succeeds; \<open>Bound None\<close> is the value \<open>None\<close> returned by a
  failed search.
\<close>

datatype binding = Unbound | Bound "assignment option"

text \<open>Lines 202 to 204: AC-3, then the search from the empty assignment.\<close>

definition solve :: "csp \<Rightarrow> error + binding" where
  "solve st =
     (case apply_arcconsistency_algorithm st of
        Inl e \<Rightarrow> Inl e
      | Inr (arc_consistent, ds) \<Rightarrow>
          if arc_consistent
          then (case attempt_solution ds [] of
                  Inl e \<Rightarrow> Inl e
                | Inr (solution_assignment, _) \<Rightarrow> Inr (Bound solution_assignment))
          else Inr Unbound)"

text \<open>Lines 213 to 215: the one-based positions, column by column.\<close>

fun queen_final_positions :: "assignment \<Rightarrow> nat list \<Rightarrow> error + (nat \<times> int) list" where
  "queen_final_positions solution_assignment [] = Inr []"
| "queen_final_positions solution_assignment (column # columns) =
     (case dict_get solution_assignment column of
        Inl e \<Rightarrow> Inl e
      | Inr row \<Rightarrow>
          (case queen_final_positions solution_assignment columns of
             Inl e \<Rightarrow> Inl e
           | Inr positions \<Rightarrow> Inr ((column + 1, row + 1) # positions)))"

text \<open>
  What a run of \<open>resolve_nqueens\<close> ends with: the solution and the positions it prints, the
  message that no solution was found, or an exception. Timing and drawing are left out.
  Line 223 reads \<open>solution_assignment\<close> on every path.
\<close>

datatype outcome = Solved assignment "(nat \<times> int) list" | NoSolution | Raised error

definition resolve_from :: "csp \<Rightarrow> int list \<Rightarrow> outcome" where
  "resolve_from st initial_queen_positions =
     (case solve st of
        Inl e \<Rightarrow> Raised e
      | Inr Unbound \<Rightarrow> Raised UnboundLocalError
      | Inr (Bound None) \<Rightarrow> NoSolution
      | Inr (Bound (Some solution_assignment)) \<Rightarrow>
          (case queen_final_positions solution_assignment [0..<length initial_queen_positions] of
             Inl e \<Rightarrow> Raised e
           | Inr positions \<Rightarrow> Solved solution_assignment positions))"

definition resolve_nqueens :: "input \<Rightarrow> outcome" where
  "resolve_nqueens input_path =
     (case input_reader input_path of
        Inl e \<Rightarrow> Raised e
      | Inr (st, initial_queen_positions) \<Rightarrow> resolve_from st initial_queen_positions)"

section \<open>Notions used to state the properties\<close>

text \<open>
  An assignment is well formed for a store when its keys are distinct columns of the
  store, as the keys of the search's dictionary are.
\<close>

definition wf_assignment :: "domains \<Rightarrow> assignment \<Rightarrow> bool" where
  "wf_assignment ds a \<longleftrightarrow> distinct (dict_keys a) \<and> (\<forall>k\<in>set (dict_keys a). k < length ds)"

text \<open>The invariant of a consistent assignment: no shared row, no shared diagonal.\<close>

definition safe :: "assignment \<Rightarrow> bool" where
  "safe a \<longleftrightarrow> (\<forall>(vi, ri)\<in>set a. \<forall>(vj, rj)\<in>set a.
       vi \<noteq> vj \<longrightarrow> ri \<noteq> rj \<and> \<bar>ri - rj\<bar> \<noteq> \<bar>int vi - int vj\<bar>)"

definition complete_placement :: "domains \<Rightarrow> assignment \<Rightarrow> bool" where
  "complete_placement ds s \<longleftrightarrow> length s = length ds \<and> wf_assignment ds s \<and> safe s"

text \<open>
  A solution of the store given as a function from columns to rows, and an assignment
  that is part of it.
\<close>

definition is_solution :: "domains \<Rightarrow> (nat \<Rightarrow> int) \<Rightarrow> bool" where
  "is_solution ds f \<longleftrightarrow>
     (\<forall>i<length ds. f i \<in> set (ds ! i)) \<and>
     (\<forall>i<length ds. \<forall>j<length ds. i \<noteq> j \<longrightarrow> f i \<noteq> f j \<and> \<bar>f i - f j\<bar> \<noteq> \<bar>int i - int j\<bar>)"

definition agrees :: "assignment \<Rightarrow> (nat \<Rightarrow> int) \<Rightarrow> bool" where
  "agrees a f \<longleftrightarrow> (\<forall>(v, r)\<in>set a. f v = r)"

text \<open>A placement given as the list of rows, column by column, checked by evaluation.\<close>

definition rows_safe :: "nat \<Rightarrow> int list \<Rightarrow> bool" where
  "rows_safe n rows \<longleftrightarrow>
     length rows = n \<and>
     list_all (\<lambda>i. 0 \<le> rows ! i \<and> rows ! i < int n \<and>
                 list_all (\<lambda>j. i = j \<or> (rows ! i \<noteq> rows ! j \<and>
                                 \<bar>rows ! i - rows ! j\<bar> \<noteq> \<bar>int i - int j\<bar>)) [0..<n])
       [0..<n]"

text \<open>The arcs of a worklist name variables of a store with \<open>n\<close> variables.\<close>

definition arcs_in_range :: "nat \<Rightarrow> (nat \<times> nat) list \<Rightarrow> bool" where
  "arcs_in_range n q \<longleftrightarrow> (\<forall>(x, y)\<in>set q. x < n \<and> y < n)"

text \<open>
  The score of the value ordering as the specification words it: over every other
  unassigned variable, the number of values of its domain that are consistent with the
  assignment extended by \<open>variable := v\<close>.
\<close>

definition lcv_score :: "domains \<Rightarrow> nat \<Rightarrow> assignment \<Rightarrow> int \<Rightarrow> nat" where
  "lcv_score ds variable a v =
     (\<Sum>u\<leftarrow>filter (\<lambda>u. u \<noteq> variable \<and> \<not> dict_mem u a) [0..<length ds].
        length (filter (\<lambda>w. check_consistency u w (dict_set a variable v)) (ds ! u)))"


section \<open>Auxiliary facts\<close>

subsection \<open>Soundness and completeness of the search\<close>

lemma check_consistency_iff:
  "check_consistency v x a \<longleftrightarrow>
     (\<forall>(av, ar)\<in>set a. ar \<noteq> x \<and> \<bar>ar - x\<bar> \<noteq> \<bar>int av - int v\<bar>)"
  by (induction a) (auto split: if_splits)

lemma wf_assignment_full:
  assumes "wf_assignment ds a" "length a \<noteq> length ds"
  shows "\<exists>v<length ds. \<not> dict_mem v a"
proof (rule ccontr)
  assume "\<not> ?thesis"
  then have "{0..<length ds} \<subseteq> set (dict_keys a)" by (auto simp: dict_mem_def)
  moreover from assms(1) have "set (dict_keys a) \<subseteq> {0..<length ds}"
    by (auto simp: wf_assignment_def)
  ultimately have "set (dict_keys a) = {0..<length ds}" by blast
  then have "card (set (dict_keys a)) = length ds" by simp
  moreover from assms(1) have "card (set (dict_keys a)) = length (dict_keys a)"
    by (simp add: wf_assignment_def distinct_card)
  ultimately show False using assms(2) by (simp add: dict_keys_def)
qed

lemma select_unassigned_total:
  assumes "\<exists>v<length ds. \<not> dict_mem v a"
  shows "\<exists>v. select_unassigned ds a = Inr v"
proof -
  from assms have "unassigned_variables ds a \<noteq> []"
    using set_unassigned_variables[of ds a] by (metis (mono_tags, lifting) empty_iff empty_set mem_Collect_eq)
  then show ?thesis unfolding select_unassigned_def by (rule py_min_total)
qed

lemma wf_assignment_set:
  "wf_assignment ds a \<Longrightarrow> v < length ds \<Longrightarrow> \<not> dict_mem v a \<Longrightarrow> wf_assignment ds (dict_set a v x)"
  by (auto simp: wf_assignment_def dict_set_keys_list dict_mem_def)

lemma set_prioritize:
  "prioritize_domain_values ds v a = Inr vals \<Longrightarrow> mset vals = mset (ds ! v)"
  by (auto simp: prioritize_domain_values_def py_sorted_reverse_def split: if_splits)

lemma attempt_solution_no_error:
  "wf_assignment ds a \<longrightarrow> (\<forall>e. attempt_solution ds a \<noteq> Inl e)"
  "wf_assignment ds a \<and> v < length ds \<and> \<not> dict_mem v a \<longrightarrow> (\<forall>e. try_values ds v xs a \<noteq> Inl e)"
proof (induction ds a and ds v xs a rule: attempt_solution_try_values.induct)
  case (1 ds a)
  show ?case
  proof (intro impI allI)
    fix e assume wf: "wf_assignment ds a"
    show "attempt_solution ds a \<noteq> Inl e"
    proof (cases "length a = length ds")
      case True
      then show ?thesis by simp
    next
      case False
      from select_unassigned_total[OF wf_assignment_full[OF wf False]]
      obtain v where sel: "select_unassigned ds a = Inr v" by blast
      from select_unassigned_range[OF sel] have v: "v < length ds" "\<not> dict_mem v a" by simp_all
      then obtain vals where pri: "prioritize_domain_values ds v a = Inr vals"
        by (simp add: prioritize_domain_values_def)
      from 1[OF False sel pri] wf v have "try_values ds v vals a \<noteq> Inl e" by simp
      with False sel pri show ?thesis by simp
    qed
  qed
next
  case (2 ds v a)
  then show ?case by simp
next
  case (3 ds v x xs a)
  show ?case
  proof (intro impI allI)
    fix e assume pre: "wf_assignment ds a \<and> v < length ds \<and> \<not> dict_mem v a"
    show "try_values ds v (x # xs) a \<noteq> Inl e"
    proof (cases "check_consistency v x a")
      case False
      with 3(3)[OF False] pre show ?thesis by simp
    next
      case True
      from pre have wf': "wf_assignment ds (dict_set a v x)" by (simp add: wf_assignment_set)
      with 3(1)[OF True] have ne: "\<And>e. attempt_solution ds (dict_set a v x) \<noteq> Inl e" by simp
      then obtain r y where at: "attempt_solution ds (dict_set a v x) = Inr (r, y)"
        by (cases "attempt_solution ds (dict_set a v x)") auto
      show ?thesis
      proof (cases r)
        case (Some s)
        with True at show ?thesis by simp
      next
        case None
        with at have at': "attempt_solution ds (dict_set a v x) = Inr (None, y)" by simp
        from attempt_solution_restores_state[OF at'] have y: "y = dict_set a v x" .
        with pre have del: "dict_del y v = Inr a" by (simp add: dict_set_fresh dict_del_last)
        from 3(2)[OF True at' refl refl del] pre have "try_values ds v xs a \<noteq> Inl e" by simp
        with True at' del show ?thesis by simp
      qed
    qed
  qed
qed


lemma safe_extend:
  assumes "safe a" "check_consistency v x a"
  shows "safe (a @ [(v, x)])"
proof -
  from assms(2) have c: "\<And>av ar. (av, ar) \<in> set a \<Longrightarrow> ar \<noteq> x \<and> \<bar>ar - x\<bar> \<noteq> \<bar>int av - int v\<bar>"
    by (auto simp: check_consistency_iff)
  have c': "\<And>av ar. (av, ar) \<in> set a \<Longrightarrow> x \<noteq> ar \<and> \<bar>x - ar\<bar> \<noteq> \<bar>int v - int av\<bar>"
  proof -
    fix av ar assume "(av, ar) \<in> set a"
    from c[OF this] show "x \<noteq> ar \<and> \<bar>x - ar\<bar> \<noteq> \<bar>int v - int av\<bar>"
      by (simp add: abs_minus_commute)
  qed
  from assms(1) have s: "\<And>vi ri vj rj. (vi, ri) \<in> set a \<Longrightarrow> (vj, rj) \<in> set a \<Longrightarrow> vi \<noteq> vj \<Longrightarrow>
      ri \<noteq> rj \<and> \<bar>ri - rj\<bar> \<noteq> \<bar>int vi - int vj\<bar>"
    unfolding safe_def by blast
  show ?thesis unfolding safe_def
  proof (intro ballI, clarify)
    fix vi ri vj rj
    assume i: "(vi, ri) \<in> set (a @ [(v, x)])" and j: "(vj, rj) \<in> set (a @ [(v, x)])"
      and ne: "vi \<noteq> vj"
    from i have i': "(vi, ri) \<in> set a \<or> (vi, ri) = (v, x)" by auto
    from j have j': "(vj, rj) \<in> set a \<or> (vj, rj) = (v, x)" by auto
    from i' j' ne show "ri \<noteq> rj \<and> \<bar>ri - rj\<bar> \<noteq> \<bar>int vi - int vj\<bar>"
      using s c c' by blast
  qed
qed

lemma attempt_solution_sound:
  "wf_assignment ds a \<and> safe a \<longrightarrow>
     (\<forall>s a'. attempt_solution ds a = Inr (Some s, a') \<longrightarrow> s = a' \<and> complete_placement ds s)"
  "wf_assignment ds a \<and> safe a \<and> v < length ds \<and> \<not> dict_mem v a \<longrightarrow>
     (\<forall>s a'. try_values ds v xs a = Inr (Some s, a') \<longrightarrow> s = a' \<and> complete_placement ds s)"
proof (induction ds a and ds v xs a rule: attempt_solution_try_values.induct)
  case (1 ds a)
  show ?case
  proof (intro impI allI)
    fix s a' assume pre: "wf_assignment ds a \<and> safe a"
      and r: "attempt_solution ds a = Inr (Some s, a')"
    show "s = a' \<and> complete_placement ds s"
    proof (cases "length a = length ds")
      case True
      with r pre show ?thesis by (auto simp: complete_placement_def)
    next
      case False
      with r obtain v vals where sel: "select_unassigned ds a = Inr v"
        and pri: "prioritize_domain_values ds v a = Inr vals"
        and tr: "try_values ds v vals a = Inr (Some s, a')"
        by (auto split: sum.splits)
      from select_unassigned_range[OF sel] have v: "v < length ds" "\<not> dict_mem v a" by simp_all
      from 1[OF False sel pri] pre v tr show ?thesis by blast
    qed
  qed
next
  case (2 ds v a)
  then show ?case by simp
next
  case (3 ds v x xs a)
  show ?case
  proof (intro impI allI)
    fix s a'
    assume pre: "wf_assignment ds a \<and> safe a \<and> v < length ds \<and> \<not> dict_mem v a"
      and r: "try_values ds v (x # xs) a = Inr (Some s, a')"
    show "s = a' \<and> complete_placement ds s"
    proof (cases "check_consistency v x a")
      case False
      with r have "try_values ds v xs a = Inr (Some s, a')" by simp
      with 3(3)[OF False] pre show ?thesis by blast
    next
      case True
      from pre have wf': "wf_assignment ds (dict_set a v x)" by (simp add: wf_assignment_set)
      from pre True have safe': "safe (dict_set a v x)" by (simp add: dict_set_fresh safe_extend)
      obtain res where at: "attempt_solution ds (dict_set a v x) = res" by simp
      show ?thesis
      proof (cases res)
        case (Inl e)
        with at r True show ?thesis by simp
      next
        case (Inr p)
        obtain q y where p: "p = (q, y)" by (cases p)
        show ?thesis
        proof (cases q)
          case (Some s')
          with at Inr p r True have "s' = s" "y = a'" by simp_all
          with at Inr p Some have "attempt_solution ds (dict_set a v x) = Inr (Some s, a')" by simp
          with 3(1)[OF True] wf' safe' show ?thesis by blast
        next
          case None
          with at Inr p have at': "attempt_solution ds (dict_set a v x) = Inr (None, y)" by simp
          from attempt_solution_restores_state[OF at'] have y: "y = dict_set a v x" .
          with pre have del: "dict_del y v = Inr a" by (simp add: dict_set_fresh dict_del_last)
          from r True at' del have "try_values ds v xs a = Inr (Some s, a')" by simp
          with 3(2)[OF True at' refl refl del] pre show ?thesis by blast
        qed
      qed
    qed
  qed
qed

lemma agrees_check:
  assumes "is_solution ds f" "wf_assignment ds a" "agrees a f" "v < length ds" "\<not> dict_mem v a"
  shows "check_consistency v (f v) a"
  unfolding check_consistency_iff
proof (clarify)
  fix av ar assume m: "(av, ar) \<in> set a"
  with assms(3) have ar: "ar = f av" by (auto simp: agrees_def)
  from m assms(2) have av: "av < length ds" by (force simp: wf_assignment_def dict_keys_def)
  from m assms(5) have ne: "av \<noteq> v" by (force simp: dict_mem_def dict_keys_def)
  from assms(1) av assms(4) ne have "f av \<noteq> f v \<and> \<bar>f av - f v\<bar> \<noteq> \<bar>int av - int v\<bar>"
    unfolding is_solution_def by blast
  with ar show "ar \<noteq> f v \<and> \<bar>ar - f v\<bar> \<noteq> \<bar>int av - int v\<bar>" by simp
qed

lemma attempt_solution_complete:
  assumes sol: "is_solution ds f"
  shows "wf_assignment ds a \<and> agrees a f \<longrightarrow> (\<exists>s a'. attempt_solution ds a = Inr (Some s, a'))"
    and "wf_assignment ds a \<and> agrees a f \<and> v < length ds \<and> \<not> dict_mem v a \<and> f v \<in> set xs \<longrightarrow>
           (\<exists>s a'. try_values ds v xs a = Inr (Some s, a'))"
  using sol
proof (induction ds a and ds v xs a rule: attempt_solution_try_values.induct)
  case (1 ds a)
  show ?case
  proof (intro impI)
    assume pre: "wf_assignment ds a \<and> agrees a f"
    show "\<exists>s a'. attempt_solution ds a = Inr (Some s, a')"
    proof (cases "length a = length ds")
      case True
      then show ?thesis by simp
    next
      case False
      from pre have wf: "wf_assignment ds a" by simp
      from select_unassigned_total[OF wf_assignment_full[OF wf False]]
      obtain v where sel: "select_unassigned ds a = Inr v" by blast
      from select_unassigned_range[OF sel] have v: "v < length ds" "\<not> dict_mem v a" by simp_all
      then obtain vals where pri: "prioritize_domain_values ds v a = Inr vals"
        by (simp add: prioritize_domain_values_def)
      from set_prioritize[OF pri] have "set vals = set (ds ! v)" by (rule mset_eq_setD)
      with 1(2) v have "f v \<in> set vals" by (simp add: is_solution_def)
      with 1(1)[OF False sel pri 1(2)] pre v
      have "\<exists>s a'. try_values ds v vals a = Inr (Some s, a')" by simp
      with False sel pri show ?thesis by simp
    qed
  qed
next
  case (2 ds v a)
  then show ?case by simp
next
  case (3 ds v x xs a)
  show ?case
  proof (intro impI)
    assume pre: "wf_assignment ds a \<and> agrees a f \<and> v < length ds \<and> \<not> dict_mem v a \<and> f v \<in> set (x # xs)"
    have chk: "check_consistency v (f v) a" using agrees_check[OF 3(4)] pre by simp
    show "\<exists>s a'. try_values ds v (x # xs) a = Inr (Some s, a')"
    proof (cases "check_consistency v x a")
      case False
      with chk have "x \<noteq> f v" by auto
      with pre have "f v \<in> set xs" by auto
      with 3(3)[OF False 3(4)] pre have "\<exists>s a'. try_values ds v xs a = Inr (Some s, a')" by simp
      with False show ?thesis by simp
    next
      case True
      from pre have wf': "wf_assignment ds (dict_set a v x)" by (simp add: wf_assignment_set)
      obtain res where at: "attempt_solution ds (dict_set a v x) = res" by simp
      show ?thesis
      proof (cases res)
        case (Inl e)
        with at attempt_solution_no_error(1)[of ds "dict_set a v x"] wf' show ?thesis by simp
      next
        case (Inr p)
        obtain q y where p: "p = (q, y)" by (cases p)
        show ?thesis
        proof (cases q)
          case (Some s')
          with at Inr p True show ?thesis by simp
        next
          case None
          with at Inr p have at': "attempt_solution ds (dict_set a v x) = Inr (None, y)" by simp
          from attempt_solution_restores_state[OF at'] have y: "y = dict_set a v x" .
          with pre have del: "dict_del y v = Inr a" by (simp add: dict_set_fresh dict_del_last)
          have "x \<noteq> f v"
          proof
            assume xf: "x = f v"
            from pre have "agrees (dict_set a v x) f"
              by (auto simp: dict_set_fresh agrees_def xf)
            with 3(1)[OF True 3(4)] wf' at' show False by simp
          qed
          with pre have "f v \<in> set xs" by auto
          with 3(2)[OF True at' refl refl del 3(4)] pre
          have "\<exists>s a'. try_values ds v xs a = Inr (Some s, a')" by simp
          with True at' del show ?thesis by simp
        qed
      qed
    qed
  qed
qed

subsection \<open>Properties of the AC-3 loop\<close>

lemma revise_domains_frame:
  assumes "revise_domains ds x y = Inr (b, ds')"
  shows "x < length ds" and "length ds' = length ds"
    and "\<forall>v<length ds. v \<noteq> x \<longrightarrow> ds' ! v = ds ! v"
    and "ds' ! x = filter (\<lambda>v. v \<in> set (ds ! y)) (ds ! x)"
    and "b \<longleftrightarrow> (\<exists>v\<in>set (ds ! x). v \<notin> set (ds ! y))"
proof -
  from assms show x: "x < length ds" by (auto simp: revise_domains_def split: if_splits)
  from assms have y: "ds ! x = [] \<or> y < length ds"
    by (auto simp: revise_domains_def split: if_splits)
  from assms revise_domains_eq[OF x y]
  have b: "b = (\<exists>v\<in>set (ds ! x). v \<notin> set (ds ! y))"
    and ds': "ds' = ds[x := filter (\<lambda>v. v \<in> set (ds ! y)) (ds ! x)]" by auto
  from b show "b \<longleftrightarrow> (\<exists>v\<in>set (ds ! x). v \<notin> set (ds ! y))" by simp
  from ds' show "length ds' = length ds" by simp
  from ds' show "\<forall>v<length ds. v \<noteq> x \<longrightarrow> ds' ! v = ds ! v" by simp
  from ds' x show "ds' ! x = filter (\<lambda>v. v \<in> set (ds ! y)) (ds ! x)" by simp
qed

lemma revise_domains_shrinks:
  assumes "revise_domains ds x y = Inr (b, ds')" "v < length ds"
  shows "mset (ds' ! v) \<subseteq># mset (ds ! v)"
proof (cases "v = x")
  case True
  with revise_domains_frame(4)[OF assms(1)] show ?thesis by (simp add: multiset_filter_subset)
next
  case False
  with revise_domains_frame(3)[OF assms(1)] assms(2) show ?thesis by simp
qed

lemma ac3_loop_shrinks:
  "ac3_loop cs q ds = Inr (ok, ds') \<Longrightarrow>
     length ds' = length ds \<and> (\<forall>v<length ds. mset (ds' ! v) \<subseteq># mset (ds ! v)) \<and>
     (\<not> ok \<longrightarrow> (\<exists>v<length ds'. ds' ! v = []))"
proof (induction cs q ds rule: ac3_loop.induct)
  case (1 cs ds)
  then show ?case by simp
next
  case (2 cs x y q ds)
  from "2.prems" obtain b ds1 where rv: "revise_domains ds x y = Inr (b, ds1)"
    by (auto split: sum.splits)
  note fr = revise_domains_frame[OF rv]
  have step: "\<forall>v<length ds. mset (ds1 ! v) \<subseteq># mset (ds ! v)"
    using revise_domains_shrinks[OF rv] by blast
  show ?case
  proof (cases b)
    case False
    with "2.prems" rv have r: "ac3_loop cs q ds1 = Inr (ok, ds')" by simp
    from "2.IH"(2)[OF rv refl False r] fr(2) step show ?thesis
      by (auto intro: subset_mset.order_trans)
  next
    case True
    show ?thesis
    proof (cases "ds1 ! x = []")
      case e: True
      with "2.prems" rv True have "ok = False" "ds' = ds1" by simp_all
      with e fr step show ?thesis by auto
    next
      case ne: False
      with "2.prems" rv True have r: "ac3_loop cs (q @ requeue cs x y) ds1 = Inr (ok, ds')" by simp
      from "2.IH"(1)[OF rv refl True ne r] fr(2) step show ?thesis
        by (auto intro: subset_mset.order_trans)
    qed
  qed
qed

lemma arcs_in_range_requeue:
  "arcs_in_range n cs \<Longrightarrow> x < n \<Longrightarrow> arcs_in_range n (requeue cs x y)"
  by (auto simp: arcs_in_range_def requeue_def)

lemma revise_domains_total:
  "x < length ds \<Longrightarrow> y < length ds \<Longrightarrow> \<exists>b ds'. revise_domains ds x y = Inr (b, ds')"
  using revise_domains_eq[of x ds y] by simp

lemma ac3_loop_total:
  "arcs_in_range (length ds) cs \<Longrightarrow> arcs_in_range (length ds) q \<Longrightarrow>
     \<exists>ok ds'. ac3_loop cs q ds = Inr (ok, ds')"
proof (induction cs q ds rule: ac3_loop.induct)
  case (1 cs ds)
  then show ?case by auto
next
  case (2 cs x y q ds)
  from "2.prems"(2) have xy: "x < length ds" "y < length ds" and q: "arcs_in_range (length ds) q"
    by (auto simp: arcs_in_range_def)
  from revise_domains_total[OF xy] obtain b ds1 where rv: "revise_domains ds x y = Inr (b, ds1)"
    by blast
  note len = revise_domains_frame(2)[OF rv]
  show ?case
  proof (cases b)
    case False
    from "2.IH"(2)[OF rv refl False] "2.prems"(1) q len
    have "\<exists>ok ds'. ac3_loop cs q ds1 = Inr (ok, ds')" by simp
    with rv False show ?thesis by simp
  next
    case True
    show ?thesis
    proof (cases "ds1 ! x = []")
      case e: True
      with rv True show ?thesis by auto
    next
      case ne: False
      have "arcs_in_range (length ds1) (q @ requeue cs x y)"
        using q arcs_in_range_requeue[OF "2.prems"(1) xy(1), of y] len
        by (auto simp: arcs_in_range_def)
      with "2.IH"(1)[OF rv refl True ne] "2.prems"(1) len
      have "\<exists>ok ds'. ac3_loop cs (q @ requeue cs x y) ds1 = Inr (ok, ds')" by simp
      with rv True ne show ?thesis by simp
    qed
  qed
qed

lemma ac3_loop_uniform:
  assumes "arcs_in_range (length ds) q" "\<forall>i<length ds. \<forall>j<length ds. set (ds ! i) \<subseteq> set (ds ! j)"
  shows "ac3_loop cs q ds = Inr (True, ds)"
  using assms(1)
proof (induction q)
  case Nil
  then show ?case by simp
next
  case (Cons p q)
  obtain x y where p: "p = (x, y)" by (cases p)
  from Cons.prems p have xy: "x < length ds" "y < length ds" and q: "arcs_in_range (length ds) q"
    by (auto simp: arcs_in_range_def)
  from assms(2) xy have sub: "set (ds ! x) \<subseteq> set (ds ! y)" by blast
  then have f: "filter (\<lambda>v. v \<in> set (ds ! y)) (ds ! x) = ds ! x" by (auto simp: filter_id_conv)
  from sub have nb: "\<not> (\<exists>v\<in>set (ds ! x). v \<notin> set (ds ! y))" by blast
  have "revise_domains ds x y = Inr (False, ds)"
    using revise_domains_eq[of x ds y] xy f nb by simp
  with Cons.IH[OF q] p show ?case by simp
qed

lemma initial_store_domains:
  "length (domains (initial_store n)) = n"
  "v < n \<Longrightarrow> domains (initial_store n) ! v = map int [0..<n]"
  by (simp_all add: initial_store_def)

lemma initial_store_arcs: "arcs_in_range n (constraints (initial_store n))"
  by (auto simp: arcs_in_range_def initial_store_def)

lemma ac3_initial_store:
  "apply_arcconsistency_algorithm (initial_store n) = Inr (True, domains (initial_store n))"
  unfolding apply_arcconsistency_algorithm_def
  by (rule ac3_loop_uniform) (simp_all add: initial_store_domains initial_store_arcs)

subsection \<open>Heuristics, entry point and explicit placements\<close>

lemma less_eq_key:
  "((a::nat), (b::int)) \<le> (c, d) \<longleftrightarrow> a < c \<or> (a = c \<and> b \<le> d)"
  by (auto simp: less_eq_prod_def)

lemma fold_count: "fold (\<lambda>x c. if P x then c + 1 else c) xs (c0::nat) = c0 + length (filter P xs)"
  by (induction xs arbitrary: c0) auto

lemma fold_count_outer:
  "fold (\<lambda>u c. if Q u then fold (\<lambda>x c. if P u x then c + 1 else c) (g u) c else c) us (c0::nat)
     = c0 + (\<Sum>u\<leftarrow>filter Q us. length (filter (P u) (g u)))"
  by (induction us arbitrary: c0) (auto simp: fold_count)

lemma calculate_lcv_score: "calculate_lcv ds variable a v = lcv_score ds variable a v"
  unfolding calculate_lcv_def lcv_score_def
  using fold_count_outer[of "\<lambda>u. u \<noteq> variable \<and> \<not> dict_mem u a"
      "\<lambda>u w. check_consistency u w (dict_set a variable v)" "\<lambda>u. ds ! u" "[0..<length ds]" 0]
  by simp

lemma input_reader_store:
  "input_reader i = Inr (st, q) \<Longrightarrow> st = initial_store (length q)"
  by (cases i) (auto split: sum.splits)

lemma rows_safe_is_solution:
  assumes "rows_safe n rows"
  shows "is_solution (domains (initial_store n)) (\<lambda>i. rows ! i)"
proof -
  from assms have A: "\<forall>i\<in>{0..<n}. 0 \<le> rows ! i \<and> rows ! i < int n \<and>
      (\<forall>j\<in>{0..<n}. i = j \<or> (rows ! i \<noteq> rows ! j \<and>
          \<bar>rows ! i - rows ! j\<bar> \<noteq> \<bar>int i - int j\<bar>))"
    by (simp add: rows_safe_def list_all_iff)
  have r: "0 \<le> rows ! i \<and> rows ! i < int n" if "i < n" for i
    using A that by simp
  have p: "rows ! i \<noteq> rows ! j \<and> \<bar>rows ! i - rows ! j\<bar> \<noteq> \<bar>int i - int j\<bar>"
    if "i < n" "j < n" "i \<noteq> j" for i j
  proof -
    from that have "i \<in> {0..<n}" "j \<in> {0..<n}" by simp_all
    with A that(3) show ?thesis by blast
  qed
  have "rows ! i \<in> set (map int [0..<n])" if "i < n" for i
  proof -
    from r[OF that] have lt: "nat (rows ! i) < n" and e: "int (nat (rows ! i)) = rows ! i"
      by auto
    from lt have "int (nat (rows ! i)) \<in> int ` {0..<n}" by (intro imageI) simp
    with e show ?thesis by simp
  qed
  with p show ?thesis by (simp add: is_solution_def initial_store_domains)
qed

lemma complete_placement_props:
  assumes "complete_placement ds s"
  shows "length s = length ds" "distinct (dict_keys s)" "set (dict_keys s) = {0..<length ds}"
    and "\<forall>(vi, ri)\<in>set s. \<forall>(vj, rj)\<in>set s.
           (vi, ri) \<noteq> (vj, rj) \<longrightarrow> ri \<noteq> rj \<and> \<bar>ri - rj\<bar> \<noteq> \<bar>int vi - int vj\<bar>"
proof -
  from assms show len: "length s = length ds" and d: "distinct (dict_keys s)"
    by (simp_all add: complete_placement_def wf_assignment_def)
  from assms have sub: "set (dict_keys s) \<subseteq> {0..<length ds}"
    by (auto simp: complete_placement_def wf_assignment_def)
  from d have "card (set (dict_keys s)) = length (dict_keys s)" by (rule distinct_card)
  with len have "card (set (dict_keys s)) = card {0..<length ds}"
    by (simp add: dict_keys_def)
  with sub show "set (dict_keys s) = {0..<length ds}" by (intro card_subset_eq) simp_all
  from assms have sf: "safe s" by (simp add: complete_placement_def)
  have key: "ri \<noteq> rj \<and> \<bar>ri - rj\<bar> \<noteq> \<bar>int vi - int vj\<bar>"
    if i: "(vi, ri) \<in> set s" and j: "(vj, rj) \<in> set s" and ne: "(vi, ri) \<noteq> (vj, rj)"
    for vi ri vj rj
  proof -
    have "vi \<noteq> vj"
    proof
      assume "vi = vj"
      with i j d have "ri = rj" unfolding dict_keys_def by (metis eq_key_imp_eq_value)
      with \<open>vi = vj\<close> ne show False by simp
    qed
    with sf i j show ?thesis unfolding safe_def by blast
  qed
  show "\<forall>(vi, ri)\<in>set s. \<forall>(vj, rj)\<in>set s.
           (vi, ri) \<noteq> (vj, rj) \<longrightarrow> ri \<noteq> rj \<and> \<bar>ri - rj\<bar> \<noteq> \<bar>int vi - int vj\<bar>"
    using key by blast
qed

lemma wf_assignment_empty: "wf_assignment ds [] \<and> safe [] \<and> agrees [] f"
  by (simp add: wf_assignment_def safe_def agrees_def dict_keys_def)

lemma solve_initial_store_solvable:
  assumes "rows_safe n rows"
  shows "\<exists>sol. solve (initial_store n) = Inr (Bound (Some sol)) \<and>
           complete_placement (domains (initial_store n)) sol"
proof -
  let ?ds = "domains (initial_store n)"
  from attempt_solution_complete(1)[OF rows_safe_is_solution[OF assms], of "[]"] wf_assignment_empty
  obtain s a' where at: "attempt_solution ?ds [] = Inr (Some s, a')" by blast
  from attempt_solution_sound(1)[of ?ds "[]"] wf_assignment_empty at
  have "complete_placement ?ds s" by blast
  moreover from at have "solve (initial_store n) = Inr (Bound (Some s))"
    by (simp add: solve_def ac3_initial_store)
  ultimately show ?thesis by blast
qed

text \<open>On the store that \<open>input_reader\<close> builds, AC-3 never reports failure.\<close>

lemma input_reader_ac3_succeeds:
  "input_reader i = Inr (st, q) \<Longrightarrow>
     apply_arcconsistency_algorithm st = Inr (True, domains st)"
  using input_reader_store[of i st q] by (simp add: ac3_initial_store)

section \<open>The claims\<close>

text \<open>
  C1: for each board size \<open>n\<close> among 0, 1, 4, 5 and 8, the solve steps (AC-3 on the freshly
  built store, then the backtracking search from the empty assignment) return an
  assignment with exactly \<open>n\<close> entries, one row for each column \<open>0 .. n-1\<close>, in which any two
  distinct entries share neither a row nor a diagonal.
\<close>

theorem solve_places_queens:
  assumes "n \<in> {0, 1, 4, 5, 8}"
  shows "\<exists>sol. solve (initial_store n) = Inr (Bound (Some sol)) \<and>
           length sol = n \<and> distinct (dict_keys sol) \<and> set (dict_keys sol) = {0..<n} \<and>
           (\<forall>(vi, ri)\<in>set sol. \<forall>(vj, rj)\<in>set sol.
              (vi, ri) \<noteq> (vj, rj) \<longrightarrow> ri \<noteq> rj \<and> \<bar>ri - rj\<bar> \<noteq> \<bar>int vi - int vj\<bar>)"
proof -
  have r0: "rows_safe 0 []" by code_simp
  have r1: "rows_safe 1 [0]" by code_simp
  have r4: "rows_safe 4 [2, 0, 3, 1]" by code_simp
  have r5: "rows_safe 5 [2, 4, 1, 3, 0]" by code_simp
  have r8: "rows_safe 8 [4, 1, 3, 6, 2, 7, 5, 0]" by code_simp
  from assms r0 r1 r4 r5 r8 obtain rows where "rows_safe n rows" by auto
  from solve_initial_store_solvable[OF this] obtain sol
    where s: "solve (initial_store n) = Inr (Bound (Some sol))"
      and c: "complete_placement (domains (initial_store n)) sol" by blast
  from complete_placement_props[OF c] s show ?thesis
    by (simp only: initial_store_domains) blast
qed

theorem solve_places_queens_witness:
  "solve (initial_store 4) = Inr (Bound (Some [(3, 1), (2, 3), (1, 0), (0, 2)])) \<and>
   length [(3::nat, 1::int), (2, 3), (1, 0), (0, 2)] = 4 \<and>
   set (dict_keys [(3, 1), (2, 3), (1, 0), (0, 2)]) = {0..<4}"
proof -
  have e: "solve (initial_store 4) = Inr (Bound (Some [(3, 1), (2, 3), (1, 0), (0, 2)]))"
    by code_simp
  have "(4::nat) \<in> {0, 1, 4, 5, 8}" by simp
  from solve_places_queens[OF this] e show ?thesis by auto
qed

text \<open>
  C2: for the board sizes 2 and 3 the solve steps (AC-3 on the freshly built store, then
  the backtracking search from the empty assignment) end with the search returning
  \<open>None\<close>: every branch is exhausted and no complete assignment is produced.
\<close>

theorem solve_fails_on_2_and_3:
  "solve (initial_store 2) = Inr (Bound None) \<and> solve (initial_store 3) = Inr (Bound None)"
  by code_simp




text \<open>
  C4: when at least one variable is unassigned, \<open>select_unassigned\<close> returns an unassigned
  variable whose domain is smallest, and among the unassigned variables with a domain of
  that size it returns the one with the largest index.
\<close>

theorem select_unassigned_smallest_domain_largest_index:
  assumes "\<exists>u<length ds. \<not> dict_mem u a"
  shows "\<exists>v. select_unassigned ds a = Inr v \<and> v < length ds \<and> \<not> dict_mem v a \<and>
           (\<forall>u<length ds. \<not> dict_mem u a \<longrightarrow>
              length (ds ! v) \<le> length (ds ! u) \<and>
              (length (ds ! u) = length (ds ! v) \<longrightarrow> u \<le> v))"
proof -
  from select_unassigned_total[OF assms] obtain v where sel: "select_unassigned ds a = Inr v"
    by blast
  note rng = select_unassigned_range[OF sel]
  from sel have pm: "py_min (\<lambda>variable. (length (ds ! variable), - int variable))
                       (unassigned_variables ds a) = Inr v"
    by (simp add: select_unassigned_def)
  have "\<forall>u<length ds. \<not> dict_mem u a \<longrightarrow>
              length (ds ! v) \<le> length (ds ! u) \<and>
              (length (ds ! u) = length (ds ! v) \<longrightarrow> u \<le> v)"
  proof (intro allI impI)
    fix u assume "u < length ds" "\<not> dict_mem u a"
    then have "u \<in> set (unassigned_variables ds a)" by (simp add: set_unassigned_variables)
    with py_min_props(2)[OF pm]
    have "(length (ds ! v), - int v) \<le> (length (ds ! u), - int u)" by blast
    then show "length (ds ! v) \<le> length (ds ! u) \<and>
              (length (ds ! u) = length (ds ! v) \<longrightarrow> u \<le> v)"
      by (auto simp: less_eq_key)
  qed
  with sel rng show ?thesis by blast
qed

theorem select_unassigned_smallest_domain_largest_index_witness:
  "select_unassigned [[0, 1], [0], [5], [0, 1, 2], [7]] [(4, 7)] = Inr 2"
proof -
  let ?ds = "[[0, 1], [0], [5], [0, 1, 2], [7::int]]"
  have u: "\<exists>u<length ?ds. \<not> dict_mem u [(4, 7)]"
    by (intro exI[of _ 0]) (simp add: dict_mem_def dict_keys_def)
  have e: "select_unassigned ?ds [(4, 7)] = Inr 2" by code_simp
  from select_unassigned_smallest_domain_largest_index[OF u] e show ?thesis by blast
qed

text \<open>
  C5: \<open>prioritize_domain_values\<close> returns exactly the values of the variable's domain (same
  values, same multiplicities), in descending order of the score \<open>lcv_score\<close>, and values
  of equal score keep the relative order they have in the domain.
\<close>

theorem prioritize_domain_values_descending_stable:
  assumes "variable < length ds"
  shows "\<exists>vals. prioritize_domain_values ds variable a = Inr vals \<and>
           mset vals = mset (ds ! variable) \<and>
           sorted_wrt (\<lambda>x y. lcv_score ds variable a x \<ge> lcv_score ds variable a y) vals \<and>
           (\<forall>k. filter (\<lambda>x. lcv_score ds variable a x = k) vals
                = filter (\<lambda>x. lcv_score ds variable a x = k) (ds ! variable))"
proof -
  let ?key = "\<lambda>x. - int (lcv_score ds variable a x)"
  let ?vals = "sort_key ?key (ds ! variable)"
  have cl: "calculate_lcv ds variable a = lcv_score ds variable a"
    by (rule ext) (rule calculate_lcv_score)
  from assms have r: "prioritize_domain_values ds variable a = Inr ?vals"
    by (simp add: prioritize_domain_values_def py_sorted_reverse_def cl)
  have m: "mset ?vals = mset (ds ! variable)" by simp
  have "sorted (map ?key ?vals)" by (rule sorted_sort_key)
  then have s: "sorted_wrt (\<lambda>x y. lcv_score ds variable a x \<ge> lcv_score ds variable a y) ?vals"
    by (simp add: sorted_map)
  have st: "filter (\<lambda>x. lcv_score ds variable a x = k) ?vals
              = filter (\<lambda>x. lcv_score ds variable a x = k) (ds ! variable)" for k
  proof -
    have "filter (\<lambda>x. ?key x = - int k) ?vals = filter (\<lambda>x. ?key x = - int k) (ds ! variable)"
      by (rule sort_key_stable)
    then show ?thesis by simp
  qed
  from r m s st show ?thesis by blast
qed

theorem prioritize_domain_values_descending_stable_witness:
  "(3::nat) < length [[0, 1, 2, 3], [0, 1, 2], [0, 1, 2, 3], [5, 1, 1, 2, 0, 3::int]] \<and>
   prioritize_domain_values [[0, 1, 2, 3], [0, 1, 2], [0, 1, 2, 3], [5, 1, 1, 2, 0, 3]] 3 [(0, 0)]
     = Inr [5, 1, 1, 3, 0, 2] \<and>
   map (lcv_score [[0, 1, 2, 3], [0, 1, 2], [0, 1, 2, 3], [5, 1, 1, 2, 0, 3]] 3 [(0, 0)])
     [5, 1, 1, 3, 0, 2] = [3, 2, 2, 2, 1, 0] \<and>
   mset [5, 1, 1, 3, 0, 2::int] = mset [5, 1, 1, 2, 0, 3]"
proof -
  let ?ds = "[[0, 1, 2, 3], [0, 1, 2], [0, 1, 2, 3], [5, 1, 1, 2, 0, 3::int]]"
  have h: "(3::nat) < length ?ds" by simp
  have e: "prioritize_domain_values ?ds 3 [(0, 0)] = Inr [5, 1, 1, 3, 0, 2]" by code_simp
  have s: "map (lcv_score ?ds 3 [(0, 0)]) [5, 1, 1, 3, 0, 2] = [3, 2, 2, 2, 1, 0]" by code_simp
  from prioritize_domain_values_descending_stable[OF h, of "[(0, 0)]"] e
  have "mset [5, 1, 1, 3, 0, 2::int] = mset (?ds ! 3)" by auto
  then have "mset [5, 1, 1, 3, 0, 2::int] = mset [5, 1, 1, 2, 0, 3]" by simp
  with h e s show ?thesis by blast
qed

text \<open>
  C6: whenever \<open>attempt_solution\<close> returns \<open>None\<close>, the assignment it was given is, on
  return, exactly what it was at the call: each tentative entry has been deleted again
  and no other entry was touched.
\<close>

theorem attempt_solution_failure_restores:
  "attempt_solution ds a = Inr (None, a') \<Longrightarrow> a' = a"
  by (rule attempt_solution_restores_state)

theorem attempt_solution_failure_restores_witness:
  "attempt_solution (domains (initial_store 4)) [(0, 0)] = Inr (None, [(0, 0)])"
proof -
  have "attempt_solution (domains (initial_store 4)) [(0, 0)]
          = Inr (None, snd (projr (attempt_solution (domains (initial_store 4)) [(0, 0)])))"
    by code_simp
  from this attempt_solution_failure_restores[OF this] show ?thesis by simp
qed

text \<open>
  C7: whatever store the AC-3 loop starts from, if it returns, the store has the same
  variables, every domain is a part of what it was before (as a set and with
  multiplicities), and a return value \<open>False\<close> comes with an empty domain. The loop does
  return whenever the arcs name variables of the store.
\<close>

theorem ac3_domains_only_shrink:
  "(arcs_in_range (length (domains st)) (constraints st) \<longrightarrow>
      (\<exists>ok ds'. apply_arcconsistency_algorithm st = Inr (ok, ds'))) \<and>
   (\<forall>ok ds'. apply_arcconsistency_algorithm st = Inr (ok, ds') \<longrightarrow>
      length ds' = length (domains st) \<and>
      (\<forall>v<length (domains st).
          set (ds' ! v) \<subseteq> set (domains st ! v) \<and> mset (ds' ! v) \<subseteq># mset (domains st ! v)) \<and>
      (\<not> ok \<longrightarrow> (\<exists>v<length ds'. ds' ! v = [])))"
proof -
  have total: "arcs_in_range (length (domains st)) (constraints st) \<longrightarrow>
      (\<exists>ok ds'. apply_arcconsistency_algorithm st = Inr (ok, ds'))"
    unfolding apply_arcconsistency_algorithm_def by (intro impI ac3_loop_total)
  have shrink: "length ds' = length (domains st) \<and>
      (\<forall>v<length (domains st).
          set (ds' ! v) \<subseteq> set (domains st ! v) \<and> mset (ds' ! v) \<subseteq># mset (domains st ! v)) \<and>
      (\<not> ok \<longrightarrow> (\<exists>v<length ds'. ds' ! v = []))"
    if r: "apply_arcconsistency_algorithm st = Inr (ok, ds')" for ok ds'
  proof -
    from r have l: "ac3_loop (constraints st) (constraints st) (domains st) = Inr (ok, ds')"
      by (simp add: apply_arcconsistency_algorithm_def)
    note s = ac3_loop_shrinks[OF l]
    have "set (ds' ! v) \<subseteq> set (domains st ! v)" if "v < length (domains st)" for v
    proof -
      from s that have "mset (ds' ! v) \<subseteq># mset (domains st ! v)" by simp
      then have "set_mset (mset (ds' ! v)) \<subseteq> set_mset (mset (domains st ! v))"
        by (rule set_mset_mono)
      then show ?thesis by simp
    qed
    with s show ?thesis by auto
  qed
  from total shrink show ?thesis by blast
qed

theorem ac3_domains_only_shrink_witness:
  "apply_arcconsistency_algorithm \<lparr>domains = [[0, 1, 2], [1, 2], [3, 2]],
       constraints = [(0, 1), (1, 0), (2, 1), (1, 2), (0, 2), (2, 0)]\<rparr> = Inr (True, [[2], [2], [2]]) \<and>
   apply_arcconsistency_algorithm \<lparr>domains = [[0], [1]], constraints = [(0, 1), (1, 0)]\<rparr>
     = Inr (False, [[], [1]]) \<and>
   (\<exists>v<length [[], [1::int]]. [[], [1::int]] ! v = [])"
proof -
  let ?s1 = "\<lparr>domains = [[0, 1, 2], [1, 2], [3, 2]],
       constraints = [(0, 1), (1, 0), (2, 1), (1, 2), (0, 2), (2, 0)]\<rparr>"
  let ?s2 = "\<lparr>domains = [[0], [1]], constraints = [(0, 1), (1, 0)]\<rparr>"
  have a: "apply_arcconsistency_algorithm ?s1 = Inr (True, [[2], [2], [2]])" by code_simp
  have b: "apply_arcconsistency_algorithm ?s2 = Inr (False, [[], [1]])" by code_simp
  from ac3_domains_only_shrink[of ?s2] b have "\<exists>v<length [[], [1::int]]. [[], [1::int]] ! v = []"
    by blast
  with a b show ?thesis by blast
qed

text \<open>
  C9: the outcome of \<open>resolve_nqueens\<close> depends on the board size only: two inputs that
  \<open>input_reader\<close> accepts with boards of the same size, whatever the initial queen
  positions read from the file or drawn at random, end with the same solution.
\<close>

theorem resolve_nqueens_depends_on_size_only:
  assumes "input_reader i1 = Inr (st1, q1)" "input_reader i2 = Inr (st2, q2)"
    and "length q1 = length q2"
  shows "resolve_nqueens i1 = resolve_nqueens i2"
proof -
  from input_reader_store[OF assms(1)] input_reader_store[OF assms(2)] assms(3)
  have st: "st1 = st2" by simp
  have "resolve_from st1 q1 = resolve_from st2 q2"
    unfolding resolve_from_def st assms(3) by (rule refl)
  with assms(1,2) show ?thesis by (simp add: resolve_nqueens_def)
qed

theorem resolve_nqueens_depends_on_size_only_witness:
  "resolve_nqueens (File [Entry 3, Comment, Entry 1, Entry 9, Entry 9])
     = resolve_nqueens (Pass 4 (\<lambda>i. int i)) \<and>
   resolve_nqueens (Pass 4 (\<lambda>i. int i))
     = Solved [(3, 1), (2, 3), (1, 0), (0, 2)] [(1, 3), (2, 1), (3, 4), (4, 2)]"
proof -
  have a: "input_reader (File [Entry 3, Comment, Entry 1, Entry 9, Entry 9])
             = Inr (initial_store (length [3, 1, 9, 9::int]), [3, 1, 9, 9])" by simp
  have b: "input_reader (Pass 4 (\<lambda>i. int i)) = Inr (initial_store 4, map (\<lambda>i. int i) [0..<4])"
    by simp
  have c: "resolve_nqueens (File [Entry 3, Comment, Entry 1, Entry 9, Entry 9])
             = Solved [(3, 1), (2, 3), (1, 0), (0, 2)] [(1, 3), (2, 1), (3, 4), (4, 2)]"
    by code_simp
  from resolve_nqueens_depends_on_size_only[OF a b] c show ?thesis by simp
qed

text \<open>
  C10: on the store that \<open>input_reader\<close> builds for any board size \<open>n\<close>, where every
  domain is the full range \<open>0 .. n-1\<close>, the AC-3 pass returns \<open>True\<close> and leaves the store as
  it was: no value is pruned and unsatisfiability is never reported.
\<close>

theorem ac3_identity_on_initial_store:
  "apply_arcconsistency_algorithm (initial_store n) = Inr (True, domains (initial_store n)) \<and>
   length (domains (initial_store n)) = n \<and>
   (\<forall>v<n. domains (initial_store n) ! v = map int [0..<n])"
  using ac3_initial_store[of n] by (simp add: initial_store_domains)

theorem ac3_identity_on_initial_store_witness:
  "apply_arcconsistency_algorithm (initial_store 3)
     = Inr (True, [[0, 1, 2], [0, 1, 2], [0, 1, 2]])"
proof -
  have "domains (initial_store 3) = [[0, 1, 2], [0, 1, 2], [0, 1, 2]]" by code_simp
  with ac3_identity_on_initial_store[of 3] show ?thesis by simp
qed

end
